theory Spec2Isabelle
  imports Complex_Main "HOL-Library.Log_Nat"
begin

section \<open>JSON-like trees\<close>

text \<open>
  The values that \<^verbatim>\<open>json.loads\<close> builds and that \<^verbatim>\<open>compare_json\<close> and
  \<^verbatim>\<open>score_accuracy\<close> of \<^verbatim>\<open>usinggeminikey.py\<close> receive: \<^verbatim>\<open>None\<close>, \<^verbatim>\<open>bool\<close>,
  \<^verbatim>\<open>int\<close>, \<^verbatim>\<open>float\<close>, \<^verbatim>\<open>str\<close>, \<^verbatim>\<open>list\<close> and \<^verbatim>\<open>dict\<close> with string keys.
  A \<^verbatim>\<open>float\<close> is represented by the rational number it denotes (every finite double is
  one); \<^verbatim>\<open>NaN\<close> and the infinities are not JSON and are not modelled. A \<^verbatim>\<open>dict\<close> is
  the list of its items in insertion order; a Python dict never holds a key twice, which
  is the invariant \<open>wf_json\<close>.
\<close>

datatype json =
    JNull
  | JBool bool
  | JInt int
  | JFloat rat
  | JStr string
  | JList "json list"
  | JDict "(string \<times> json) list"

function (sequential) wf_json :: "json \<Rightarrow> bool" where
  "wf_json (JList xs) = list_all wf_json xs"
| "wf_json (JDict d) = (distinct (map fst d) \<and> list_all (\<lambda>(k, v). wf_json v) d)"
| "wf_json _ = True"
  by pat_completeness auto
termination
proof (relation "measure size", goal_cases)
  case 1
  show ?case by simp
next
  case (2 xs x)
  then have "size x \<le> size_list size xs"
    by (auto intro: size_list_estimation')
  then show ?case by simp
next
  case (3 d z k v)
  then have "size_prod (\<lambda>x. 0) size (k, v) \<le> size_list (size_prod (\<lambda>x. 0) size) d"
    by (auto intro: size_list_estimation')
  then show ?case by simp
qed

text \<open>\<^verbatim>\<open>isinstance(x, dict)\<close> and \<^verbatim>\<open>isinstance(x, list)\<close>\<close>

fun is_dict :: "json \<Rightarrow> bool" where
  "is_dict (JDict d) = True"
| "is_dict _ = False"

fun is_list :: "json \<Rightarrow> bool" where
  "is_list (JList xs) = True"
| "is_list _ = False"

section \<open>Exceptions and dict access\<close>

text \<open>
  The exceptions the code could raise: \<^verbatim>\<open>d[k]\<close> raises \<^verbatim>\<open>KeyError\<close> on a missing key,
  \<^verbatim>\<open>/\<close> raises \<^verbatim>\<open>ZeroDivisionError\<close> on a zero divisor, and the call of a Python function
  raises \<^verbatim>\<open>RecursionError\<close> when the interpreter allows no further frame. \<open>Raised\<close> is
  an exception of an external producer (a subclass of \<^verbatim>\<open>Exception\<close>), with a description
  of it.
\<close>

datatype py_error = KeyError string | ZeroDivisionError | RecursionError | Raised string

text \<open>\<^verbatim>\<open>d[k]\<close>\<close>

definition getitem :: "(string \<times> json) list \<Rightarrow> string \<Rightarrow> py_error + json" where
  "getitem d k = (case map_of d k of None \<Rightarrow> Inl (KeyError k) | Some v \<Rightarrow> Inr v)"

text \<open>\<^verbatim>\<open>k in d\<close>\<close>

definition has_key :: "(string \<times> json) list \<Rightarrow> string \<Rightarrow> bool" where
  "has_key d k = (map_of d k \<noteq> None)"

section \<open>Python's \<^verbatim>\<open>==\<close> on JSON-like trees\<close>

text \<open>
  \<^verbatim>\<open>bool\<close> is a subclass of \<^verbatim>\<open>int\<close>, and \<^verbatim>\<open>int\<close> and \<^verbatim>\<open>float\<close> compare by value:
  \<^verbatim>\<open>True == 1\<close>, \<^verbatim>\<open>False == 0.0\<close> and \<^verbatim>\<open>1 == 1.0\<close> hold. \<open>num_val\<close> is the value of a
  numeric leaf.
\<close>

fun num_val :: "json \<Rightarrow> rat option" where
  "num_val (JBool b) = Some (if b then 1 else 0)"
| "num_val (JInt i) = Some (of_int i)"
| "num_val (JFloat r) = Some r"
| "num_val _ = None"

text \<open>
  Lists are equal when they have the same length and equal elements at every index;
  dicts when they have the same number of items and every key of the left one is a key
  of the right one with an equal value (the order of the items plays no role). Values of
  different kinds, other than numeric ones, are unequal.
\<close>

function (sequential) py_eq :: "json \<Rightarrow> json \<Rightarrow> bool" where
  "py_eq JNull JNull = True"
| "py_eq (JStr s) (JStr t) = (s = t)"
| "py_eq (JList xs) (JList ys) =
     (length xs = length ys \<and> list_all (\<lambda>(x, y). py_eq x y) (zip xs ys))"
| "py_eq (JDict g) (JDict p) =
     (length g = length p \<and>
      list_all (\<lambda>(k, v). (case map_of p k of None \<Rightarrow> False | Some w \<Rightarrow> py_eq v w)) g)"
| "py_eq a b =
     (case (num_val a, num_val b) of (Some x, Some y) \<Rightarrow> x = y | _ \<Rightarrow> False)"
  by pat_completeness auto
termination
proof (relation "measure (\<lambda>(a, b). size a)", goal_cases)
  case 1
  show ?case by simp
next
  case (2 xs ys z x y)
  then have "x \<in> set xs"
    by (auto dest: set_zip_leftD)
  then have "size x \<le> size_list size xs"
    by (auto intro: size_list_estimation')
  then show ?case by simp
next
  case (3 g p z k v w)
  then have "size_prod (\<lambda>x. 0) size (k, v) \<le> size_list (size_prod (\<lambda>x. 0) size) g"
    by (auto intro: size_list_estimation')
  then show ?case by simp
qed

section \<open>\<^verbatim>\<open>compare_json\<close>\<close>

text \<open>
  \<^verbatim>\<open>
  def compare_json(gold, pred):
      matches, total = 0, 0
      if isinstance(gold, dict) and isinstance(pred, dict):
          for k in gold:
              total += 1
              if k in pred:
                  sub_m, sub_t = compare_json(gold[k], pred[k])
                  matches += sub_m
                  total += sub_t
          return matches, total
      elif isinstance(gold, list) and isinstance(pred, list):
          for g, p in zip(gold, pred):
              sub_m, sub_t = compare_json(g, p)
              matches += sub_m
              total += sub_t
          total += abs(len(gold) - len(pred))
          return matches, total
      else:
          total += 1
          if gold == pred:
              matches += 1
          return matches, total
  \<close>
  Each loop is a fold of its body over the keys of \<^verbatim>\<open>gold\<close>, or over the zipped pairs,
  with the pair \<open>(m, t)\<close> of \<^verbatim>\<open>matches\<close> and \<^verbatim>\<open>total\<close> as the state; an exception
  (\<open>Inl\<close>) leaves the loop and the function. The recursion terminates because the
  sizes of the two arguments, added up, decrease at every recursive call.
\<close>

function (sequential) compare_json :: "json \<Rightarrow> json \<Rightarrow> py_error + nat \<times> nat" where
  "compare_json (JDict g) (JDict p) =
     foldl (\<lambda>acc k.
              (case acc of
                 Inl e \<Rightarrow> Inl e
               | Inr (m, t) \<Rightarrow>
                   (if has_key p k then
                      (case getitem g k of
                         Inl e \<Rightarrow> Inl e
                       | Inr gv \<Rightarrow>
                           (case getitem p k of
                              Inl e \<Rightarrow> Inl e
                            | Inr pv \<Rightarrow>
                                (case compare_json gv pv of
                                   Inl e \<Rightarrow> Inl e
                                 | Inr (sub_m, sub_t) \<Rightarrow> Inr (m + sub_m, t + 1 + sub_t))))
                    else Inr (m, t + 1))))
           (Inr (0, 0)) (map fst g)"
| "compare_json (JList g) (JList p) =
     (case foldl (\<lambda>acc (x, y).
                    (case acc of
                       Inl e \<Rightarrow> Inl e
                     | Inr (m, t) \<Rightarrow>
                         (case compare_json x y of
                            Inl e \<Rightarrow> Inl e
                          | Inr (sub_m, sub_t) \<Rightarrow> Inr (m + sub_m, t + sub_t))))
                 (Inr (0, 0)) (zip g p) of
        Inl e \<Rightarrow> Inl e
      | Inr (m, t) \<Rightarrow> Inr (m, t + nat \<bar>int (length g) - int (length p)\<bar>))"
| "compare_json gold pred = Inr (if py_eq gold pred then 1 else 0, 1)"
  by pat_completeness auto
termination
proof (relation "measure (\<lambda>(gold, pred). size gold + size pred)", goal_cases)
  case 1
  show ?case by simp
next
  case (2 g p acc k b m t gv pv)
  then have "(k, gv) \<in> set g" and "(k, pv) \<in> set p"
    by (auto simp: getitem_def split: option.splits dest: map_of_SomeD)
  then have "size_prod (\<lambda>x. 0) size (k, gv) \<le> size_list (size_prod (\<lambda>x. 0) size) g"
    and "size_prod (\<lambda>x. 0) size (k, pv) \<le> size_list (size_prod (\<lambda>x. 0) size) p"
    by (auto intro: size_list_estimation')
  then show ?case by simp
next
  case (3 g p acc z x y b m t)
  then have "x \<in> set g" and "y \<in> set p"
    by (auto dest: set_zip_leftD set_zip_rightD)
  then have "size x \<le> size_list size g" and "size y \<le> size_list size p"
    by (auto intro: size_list_estimation')
  then show ?case by simp
qed

section \<open>The recursion limit\<close>

text \<open>
  \<open>compare_json\<close> above is the function on a stack that is deep enough. The interpreter
  bounds the stack: the call of a Python function raises \<^verbatim>\<open>RecursionError\<close> when the
  number of frames has reached \<^verbatim>\<open>sys.getrecursionlimit()\<close>, and \<^verbatim>\<open>compare_json\<close> has no
  guard against it. \<open>compare_json_frames n\<close> is \<^verbatim>\<open>compare_json\<close> called when the
  interpreter allows \<open>n\<close> more frames: the call takes one, and its recursive calls run
  with \<open>n - 1\<close>. This is how CPython 3.12 and later count: the limit bounds the frames of
  Python functions alone, and builtins such as \<^verbatim>\<open>==\<close> on two values that are not both
  lists or both dicts (the last branch) take none.
\<close>

fun compare_json_frames :: "nat \<Rightarrow> json \<Rightarrow> json \<Rightarrow> py_error + nat \<times> nat" where
  "compare_json_frames 0 gold pred = Inl RecursionError"
| "compare_json_frames (Suc n) (JDict g) (JDict p) =
     foldl (\<lambda>acc k.
              (case acc of
                 Inl e \<Rightarrow> Inl e
               | Inr (m, t) \<Rightarrow>
                   (if has_key p k then
                      (case getitem g k of
                         Inl e \<Rightarrow> Inl e
                       | Inr gv \<Rightarrow>
                           (case getitem p k of
                              Inl e \<Rightarrow> Inl e
                            | Inr pv \<Rightarrow>
                                (case compare_json_frames n gv pv of
                                   Inl e \<Rightarrow> Inl e
                                 | Inr (sub_m, sub_t) \<Rightarrow> Inr (m + sub_m, t + 1 + sub_t))))
                    else Inr (m, t + 1))))
           (Inr (0, 0)) (map fst g)"
| "compare_json_frames (Suc n) (JList g) (JList p) =
     (case foldl (\<lambda>acc (x, y).
                    (case acc of
                       Inl e \<Rightarrow> Inl e
                     | Inr (m, t) \<Rightarrow>
                         (case compare_json_frames n x y of
                            Inl e \<Rightarrow> Inl e
                          | Inr (sub_m, sub_t) \<Rightarrow> Inr (m + sub_m, t + sub_t))))
                 (Inr (0, 0)) (zip g p) of
        Inl e \<Rightarrow> Inl e
      | Inr (m, t) \<Rightarrow> Inr (m, t + nat \<bar>int (length g) - int (length p)\<bar>))"
| "compare_json_frames (Suc n) gold pred = Inr (if py_eq gold pred then 1 else 0, 1)"


text \<open>The nesting depth of a tree: 0 for a leaf, one more than its deepest child otherwise.\<close>

function (sequential) depth :: "json \<Rightarrow> nat" where
  "depth (JList xs) = Suc (foldr max (map depth xs) 0)"
| "depth (JDict d) = Suc (foldr max (map (\<lambda>(k, v). depth v) d) 0)"
| "depth x = 0"
  by pat_completeness auto
termination
proof (relation "measure size", goal_cases)
  case 1
  show ?case by simp
next
  case (2 xs x)
  then have "size x \<le> size_list size xs"
    by (auto intro: size_list_estimation')
  then show ?case by simp
next
  case (3 d z k v)
  then have "size_prod (\<lambda>x. 0) size (k, v) \<le> size_list (size_prod (\<lambda>x. 0) size) d"
    by (auto intro: size_list_estimation')
  then show ?case by simp
qed

text \<open>The tree \<open>t\<close> inside \<open>k\<close> lists of one element: \<^verbatim>\<open>[[...[t]...]]\<close>.\<close>

primrec nest :: "nat \<Rightarrow> json \<Rightarrow> json" where
  "nest 0 t = t"
| "nest (Suc k) t = JList [nest k t]"

section \<open>Floating point\<close>

text \<open>
  \<^verbatim>\<open>match_percent\<close> is a \<^verbatim>\<open>float\<close>, an IEEE 754 double, represented by the rational
  number it denotes. Each operation of the code computes the exact result and rounds it to
  the nearest double, ties to the even significand: \<^verbatim>\<open>int / int\<close>, \<^verbatim>\<open>float * 100\<close>, and
  \<^verbatim>\<open>round(x, 2)\<close>, which rounds the exact value of \<open>x\<close> to two decimals (ties to the
  even digit) and returns the double nearest to that decimal. A double has a significand
  of 53 bits; the exponent range is not bounded here: the quotients of the code lie in
  \<open>[0, 1]\<close> and would leave the range of normal doubles only for a \<^verbatim>\<open>total\<close> above
  \<open>2 ^ 1022\<close>.
\<close>

definition round_half_even :: "rat \<Rightarrow> int" where
  "round_half_even q =
     (let f = \<lfloor>q\<rfloor>; d = q - of_int f in
      if d < 1 / 2 then f else if 1 / 2 < d then f + 1 else if even f then f else f + 1)"

text \<open>The exponent \<open>e\<close> with \<open>2 powi e \<le> \<bar>q\<bar> < 2 powi (e + 1)\<close>, for \<open>q \<noteq> 0\<close>.\<close>

definition float_exponent :: "rat \<Rightarrow> int" where
  "float_exponent q =
     (let (a, b) = quotient_of \<bar>q\<bar>; k = bitlen a - bitlen b in
      if 2 powi k \<le> \<bar>q\<bar> then k else k - 1)"

definition to_float :: "rat \<Rightarrow> rat" where
  "to_float q =
     (if q = 0 then 0
      else let u = 2 powi (float_exponent q - 52) in of_int (round_half_even (q / u)) * u)"

text \<open>\<^verbatim>\<open>m / t\<close> on two \<^verbatim>\<open>int\<close>s\<close>

definition truediv :: "nat \<Rightarrow> nat \<Rightarrow> py_error + rat" where
  "truediv m t = (if t = 0 then Inl ZeroDivisionError else Inr (to_float (of_nat m / of_nat t)))"

text \<open>\<^verbatim>\<open>x * y\<close> on two \<^verbatim>\<open>float\<close>s\<close>

definition float_mul :: "rat \<Rightarrow> rat \<Rightarrow> rat" where
  "float_mul x y = to_float (x * y)"

text \<open>\<^verbatim>\<open>round(x, 2)\<close>\<close>

definition py_round2 :: "rat \<Rightarrow> rat" where
  "py_round2 x = to_float (of_int (round_half_even (x * 100)) / 100)"

section \<open>\<^verbatim>\<open>score_accuracy\<close>\<close>

text \<open>
  The dict that \<^verbatim>\<open>score_accuracy\<close> and the batch loop build; a key that a dict does not
  have is \<open>None\<close>.
\<close>

record score =
  exact_match :: nat
  match_percent :: rat
  matches :: "nat option"
  total :: "nat option"
  error :: "string option"

text \<open>
  \<^verbatim>\<open>
  def score_accuracy(gold, pred):
      if gold == pred:
          return {"exact_match": 1, "match_percent": 100.0}
      matches, total = compare_json(gold, pred)
      return {
          "exact_match": 0,
          "match_percent": round((matches/total)*100, 2) if total > 0 else 0.0,
          "matches": matches,
          "total": total
      }
  \<close>
  The body is written with the comparator it calls as a parameter, \<open>score_accuracy\<close> is
  the body with \<open>compare_json\<close>: what the first branch returns can then be stated for
  every comparator, also one that raises.
\<close>

definition score_accuracy_with ::
  "(json \<Rightarrow> json \<Rightarrow> py_error + nat \<times> nat) \<Rightarrow> json \<Rightarrow> json \<Rightarrow> py_error + score" where
  "score_accuracy_with compare gold pred =
     (if py_eq gold pred then
        Inr \<lparr>exact_match = 1, match_percent = 100, matches = None, total = None, error = None\<rparr>
      else
        (case compare gold pred of
           Inl e \<Rightarrow> Inl e
         | Inr (m, t) \<Rightarrow>
             (case (if t > 0 then
                      (case truediv m t of
                         Inl e \<Rightarrow> Inl e
                       | Inr q \<Rightarrow> Inr (py_round2 (float_mul q 100)))
                    else Inr 0) of
                Inl e \<Rightarrow> Inl e
              | Inr pct \<Rightarrow>
                  Inr \<lparr>exact_match = 0, match_percent = pct, matches = Some m, total = Some t,
                       error = None\<rparr>)))"

definition score_accuracy :: "json \<Rightarrow> json \<Rightarrow> py_error + score" where
  "score_accuracy gold pred = score_accuracy_with compare_json gold pred"

text \<open>
  \<^verbatim>\<open>score_accuracy\<close> called when the interpreter allows \<open>n\<close> more frames: the call takes
  one and \<^verbatim>\<open>compare_json\<close> runs with \<open>n - 1\<close>. The builtin \<^verbatim>\<open>gold == pred\<close> descends into
  both trees and is bounded by the interpreter as well, by a limit of its own; \<open>eq\<close> is
  that comparison as the interpreter evaluates it, the value \<open>py_eq gold pred\<close> or an
  exception.
\<close>

definition score_accuracy_frames ::
  "nat \<Rightarrow> (json \<Rightarrow> json \<Rightarrow> py_error + bool) \<Rightarrow> json \<Rightarrow> json \<Rightarrow> py_error + score" where
  "score_accuracy_frames n eq gold pred =
     (case n of
        0 \<Rightarrow> Inl RecursionError
      | Suc k \<Rightarrow>
          (case eq gold pred of
             Inl e \<Rightarrow> Inl e
           | Inr b \<Rightarrow>
               (if b then
                  Inr \<lparr>exact_match = 1, match_percent = 100, matches = None, total = None,
                       error = None\<rparr>
                else
                  (case compare_json_frames k gold pred of
                     Inl e \<Rightarrow> Inl e
                   | Inr (m, t) \<Rightarrow>
                       (case (if t > 0 then
                                (case truediv m t of
                                   Inl e \<Rightarrow> Inl e
                                 | Inr q \<Rightarrow> Inr (py_round2 (float_mul q 100)))
                              else Inr 0) of
                          Inl e \<Rightarrow> Inl e
                        | Inr pct \<Rightarrow>
                            Inr \<lparr>exact_match = 0, match_percent = pct, matches = Some m,
                                 total = Some t, error = None\<rparr>)))))"

section \<open>The batch loop\<close>

text \<open>
  \<^verbatim>\<open>
  results = []
  for sql in test_sqls:
      gold_ast = parse_with_node(sql)
      try:
          llm_ast = call_llm_to_generate_ast_gemini(sql)
          score = score_accuracy(gold_ast, llm_ast)
      except Exception as e:
          score = {"error": str(e), "exact_match": 0, "match_percent": 0.0}
      results.append({"sql": sql, "score": score})
  \<close>
  The two producers run programs outside this one and are parameters, each returning a
  tree or raising. \<^verbatim>\<open>parse_with_node\<close> catches the \<^verbatim>\<open>CalledProcessError\<close> of a failed
  parser and returns a tree \<^verbatim>\<open>{"error": ...}\<close> for it, and raises anything else (the
  \<^verbatim>\<open>JSONDecodeError\<close> of \<^verbatim>\<open>json.loads(proc.stdout)\<close>, the \<^verbatim>\<open>OSError\<close> of a missing
  \<^verbatim>\<open>node\<close>); it is called before the \<^verbatim>\<open>try\<close>, so what it raises leaves the loop. What
  \<open>call_llm\<close> or the scoring routine raises is caught. The builtin \<^verbatim>\<open>str\<close> on an exception
  is the parameter \<open>str_of\<close>, and the scoring routine is a parameter of the loop too;
  \<open>results\<close> is the loop with \<^verbatim>\<open>score_accuracy\<close>.
\<close>

record result =
  sql :: string
  score :: score

definition batch_item ::
  "(json \<Rightarrow> json \<Rightarrow> py_error + score) \<Rightarrow> (py_error \<Rightarrow> string) \<Rightarrow> (string \<Rightarrow> py_error + json)
     \<Rightarrow> (string \<Rightarrow> py_error + json) \<Rightarrow> string \<Rightarrow> py_error + result" where
  "batch_item scorer str_of parse_with_node call_llm q =
     (case parse_with_node q of
        Inl e \<Rightarrow> Inl e
      | Inr gold_ast \<Rightarrow>
          Inr \<lparr>sql = q,
               score = (case (case call_llm q of
                                Inl e \<Rightarrow> Inl e
                              | Inr llm_ast \<Rightarrow> scorer gold_ast llm_ast) of
                          Inl e \<Rightarrow>
                            \<lparr>exact_match = 0, match_percent = 0, matches = None, total = None,
                             error = Some (str_of e)\<rparr>
                        | Inr s \<Rightarrow> s)\<rparr>)"

definition batch ::
  "(json \<Rightarrow> json \<Rightarrow> py_error + score) \<Rightarrow> (py_error \<Rightarrow> string) \<Rightarrow> (string \<Rightarrow> py_error + json)
     \<Rightarrow> (string \<Rightarrow> py_error + json) \<Rightarrow> string list \<Rightarrow> py_error + result list" where
  "batch scorer str_of parse_with_node call_llm test_sqls =
     foldl (\<lambda>acc q.
              (case acc of
                 Inl e \<Rightarrow> Inl e
               | Inr results \<Rightarrow>
                   (case batch_item scorer str_of parse_with_node call_llm q of
                      Inl e \<Rightarrow> Inl e
                    | Inr r \<Rightarrow> Inr (results @ [r]))))
           (Inr []) test_sqls"

definition results ::
  "nat \<Rightarrow> (json \<Rightarrow> json \<Rightarrow> py_error + bool) \<Rightarrow> (py_error \<Rightarrow> string) \<Rightarrow> (string \<Rightarrow> py_error + json)
     \<Rightarrow> (string \<Rightarrow> py_error + json) \<Rightarrow> string list \<Rightarrow> py_error + result list" where
  "results n eq str_of parse_with_node call_llm test_sqls =
     batch (score_accuracy_frames n eq) str_of parse_with_node call_llm test_sqls"

section \<open>Notions of the specification\<close>

text \<open>
  The two counters of the pair that a call of \<open>compare_json\<close> returns (a call returns a
  pair on every input, see \<open>compare_json_le\<close>).
\<close>

definition matches_of :: "py_error + nat \<times> nat \<Rightarrow> nat" where
  "matches_of r = (case r of Inl e \<Rightarrow> 0 | Inr (m, t) \<Rightarrow> m)"

definition total_of :: "py_error + nat \<times> nat \<Rightarrow> nat" where
  "total_of r = (case r of Inl e \<Rightarrow> 0 | Inr (m, t) \<Rightarrow> t)"

text \<open>
  The deep equality of the specification's data model, which has the six variants Null,
  Boolean, Number, String, Sequence and Mapping: two trees are equal when they are of the
  same variant and have equal contents; a Sequence is ordered, a Mapping is a set of pairs
  with unique keys whose order is irrelevant. \<open>JInt\<close> and \<open>JFloat\<close> are both of the
  variant Number.
\<close>

function (sequential) spec_deep_eq :: "json \<Rightarrow> json \<Rightarrow> bool" where
  "spec_deep_eq JNull JNull = True"
| "spec_deep_eq (JBool a) (JBool b) = (a = b)"
| "spec_deep_eq (JStr s) (JStr t) = (s = t)"
| "spec_deep_eq (JList xs) (JList ys) =
     (length xs = length ys \<and> list_all (\<lambda>(x, y). spec_deep_eq x y) (zip xs ys))"
| "spec_deep_eq (JDict g) (JDict p) =
     (set (map fst g) = set (map fst p) \<and>
      list_all (\<lambda>(k, v). (case map_of p k of None \<Rightarrow> False | Some w \<Rightarrow> spec_deep_eq v w)) g)"
| "spec_deep_eq (JBool a) y = False"
| "spec_deep_eq x (JBool b) = False"
| "spec_deep_eq x y =
     (case (num_val x, num_val y) of (Some u, Some v) \<Rightarrow> u = v | _ \<Rightarrow> False)"
  by pat_completeness auto
termination
proof (relation "measure (\<lambda>(a, b). size a)", goal_cases)
  case 1
  show ?case by simp
next
  case (2 xs ys z x y)
  then have "x \<in> set xs"
    by (auto dest: set_zip_leftD)
  then have "size x \<le> size_list size xs"
    by (auto intro: size_list_estimation')
  then show ?case by simp
next
  case (3 g p z k v w)
  then have "size_prod (\<lambda>x. 0) size (k, v) \<le> size_list (size_prod (\<lambda>x. 0) size) g"
    by (auto intro: size_list_estimation')
  then show ?case by simp
qed

text \<open>A tree with every Boolean leaf replaced by the number Python takes it for.\<close>

function (sequential) bool_as_int :: "json \<Rightarrow> json" where
  "bool_as_int (JBool b) = JInt (if b then 1 else 0)"
| "bool_as_int (JList xs) = JList (map bool_as_int xs)"
| "bool_as_int (JDict d) = JDict (map (\<lambda>(k, v). (k, bool_as_int v)) d)"
| "bool_as_int x = x"
  by pat_completeness auto
termination
proof (relation "measure size", goal_cases)
  case 1
  show ?case by simp
next
  case (2 xs x)
  then have "size x \<le> size_list size xs"
    by (auto intro: size_list_estimation')
  then show ?case by simp
next
  case (3 d z k v)
  then have "size_prod (\<lambda>x. 0) size (k, v) \<le> size_list (size_prod (\<lambda>x. 0) size) d"
    by (auto intro: size_list_estimation')
  then show ?case by simp
qed

section \<open>Auxiliary facts\<close>

subsection \<open>The loops of \<^verbatim>\<open>compare_json\<close>\<close>

lemma foldl_inv:
  assumes "\<And>x m t. x \<in> set xs \<Longrightarrow> m \<le> t \<Longrightarrow> \<exists>m' t'. f (Inr (m, t)) x = Inr (m', t') \<and> m' \<le> t'"
    and "(m::nat) \<le> (t::nat)"
  shows "\<exists>m' t'. foldl f (Inr (m, t)) xs = (Inr (m', t') :: py_error + nat \<times> nat) \<and> m' \<le> t'"
  using assms
proof (induction xs arbitrary: m t)
  case Nil
  then show ?case by simp
next
  case (Cons x xs)
  from Cons.prems obtain m' t' where s: "f (Inr (m, t)) x = Inr (m', t')" and le: "m' \<le> t'"
    by (meson list.set_intros(1))
  have "\<exists>m'' t''. foldl f (Inr (m', t')) xs = Inr (m'', t'') \<and> m'' \<le> t''"
    by (rule Cons.IH) (use Cons.prems le in auto)
  with s show ?case by simp
qed

lemma getitem_key:
  assumes "k \<in> set (map fst d)"
  shows "\<exists>v. getitem d k = Inr v"
proof -
  from assms have "map_of d k \<noteq> None"
    by (simp add: map_of_eq_None_iff)
  then show ?thesis
    by (auto simp: getitem_def)
qed

lemma getitem_has_key:
  assumes "has_key d k"
  shows "\<exists>v. getitem d k = Inr v"
  using assms by (auto simp: getitem_def has_key_def)

lemma compare_json_le: "\<exists>m t. compare_json e a = Inr (m, t) \<and> m \<le> t"
proof (induction e a rule: compare_json.induct)
  case (1 g p)
  show ?case
    unfolding compare_json.simps
  proof (rule foldl_inv)
    fix k and m t :: nat
    assume k: "k \<in> set (map fst g)" and le: "m \<le> t"
    show "\<exists>m' t'. (case Inr (m, t) of
                 Inl e \<Rightarrow> Inl e
               | Inr (m, t) \<Rightarrow>
                   (if has_key p k then
                      (case getitem g k of
                         Inl e \<Rightarrow> Inl e
                       | Inr gv \<Rightarrow>
                           (case getitem p k of
                              Inl e \<Rightarrow> Inl e
                            | Inr pv \<Rightarrow>
                                (case compare_json gv pv of
                                   Inl e \<Rightarrow> Inl e
                                 | Inr (sub_m, sub_t) \<Rightarrow> Inr (m + sub_m, t + 1 + sub_t))))
                    else Inr (m, t + 1))) = Inr (m', t') \<and> m' \<le> t'"
    proof (cases "has_key p k")
      case False
      with le show ?thesis by simp
    next
      case True
      from getitem_key [OF k] obtain gv where gv: "getitem g k = Inr gv" ..
      from getitem_has_key [OF True] obtain pv where pv: "getitem p k = Inr pv" ..
      from "1" [OF k refl refl True gv pv]
      obtain sm st where "compare_json gv pv = Inr (sm, st)" and "sm \<le> st" by blast
      with le True gv pv show ?thesis by simp
    qed
  qed simp
next
  case (2 g p)
  have "\<exists>m t. foldl (\<lambda>acc (x, y).
                    (case acc of
                       Inl e \<Rightarrow> Inl e
                     | Inr (m, t) \<Rightarrow>
                         (case compare_json x y of
                            Inl e \<Rightarrow> Inl e
                          | Inr (sub_m, sub_t) \<Rightarrow> Inr (m + sub_m, t + sub_t))))
                 (Inr (0, 0)) (zip g p) = Inr (m, t) \<and> m \<le> t"
  proof (rule foldl_inv)
    fix z and m t :: nat
    assume z: "z \<in> set (zip g p)" and le: "m \<le> t"
    obtain x y where xy: "z = (x, y)" by (cases z)
    from "2" [OF z xy [symmetric] refl refl]
    obtain sm st where "compare_json x y = Inr (sm, st)" and "sm \<le> st" by blast
    with le xy show "\<exists>m' t'. (case z of (x, y) \<Rightarrow> (case Inr (m, t) of
                       Inl e \<Rightarrow> Inl e
                     | Inr (m, t) \<Rightarrow>
                         (case compare_json x y of
                            Inl e \<Rightarrow> Inl e
                          | Inr (sub_m, sub_t) \<Rightarrow> Inr (m + sub_m, t + sub_t)))) = Inr (m', t') \<and> m' \<le> t'"
      by simp
  qed simp
  then show ?case by auto
qed simp_all

lemma foldl_acc_sum:
  assumes "\<And>x m t. x \<in> set xs \<Longrightarrow> f (Inr (m, t)) x = Inr (m + a x, t + b x)"
  shows "foldl f (Inr (m, t)) xs
       = (Inr (m + sum_list (map a xs), t + sum_list (map b xs)) :: py_error + nat \<times> nat)"
  using assms
proof (induction xs arbitrary: m t)
  case Nil
  show ?case by simp
next
  case (Cons x xs)
  have "f (Inr (m, t)) x = Inr (m + a x, t + b x)"
    by (rule Cons.prems) simp
  moreover have "foldl f (Inr (m + a x, t + b x)) xs
       = Inr (m + a x + sum_list (map a xs), t + b x + sum_list (map b xs))"
    by (rule Cons.IH) (simp add: Cons.prems)
  ultimately show ?case by (simp add: add.assoc)
qed

lemma compare_json_returns:
  "compare_json e a = Inr (matches_of (compare_json e a), total_of (compare_json e a))"
  using compare_json_le [of e a] by (auto simp: matches_of_def total_of_def)

lemma compare_json_dict_sum:
  assumes "distinct (map fst g)"
  shows "compare_json (JDict g) (JDict p) =
     Inr (sum_list (map (\<lambda>(k, v). (case map_of p k of None \<Rightarrow> 0
                                     | Some w \<Rightarrow> matches_of (compare_json v w))) g),
          sum_list (map (\<lambda>(k, v). 1 + (case map_of p k of None \<Rightarrow> 0
                                         | Some w \<Rightarrow> total_of (compare_json v w))) g))"
proof -
  have "foldl (\<lambda>acc kv.
              (case acc of
                 Inl e \<Rightarrow> Inl e
               | Inr (m, t) \<Rightarrow>
                   (if has_key p (fst kv) then
                      (case getitem g (fst kv) of
                         Inl e \<Rightarrow> Inl e
                       | Inr gv \<Rightarrow>
                           (case getitem p (fst kv) of
                              Inl e \<Rightarrow> Inl e
                            | Inr pv \<Rightarrow>
                                (case compare_json gv pv of
                                   Inl e \<Rightarrow> Inl e
                                 | Inr (sub_m, sub_t) \<Rightarrow> Inr (m + sub_m, t + 1 + sub_t))))
                    else Inr (m, t + 1))))
           (Inr (0, 0)) g
      = Inr (0 + sum_list (map (\<lambda>(k, v). (case map_of p k of None \<Rightarrow> 0
                                     | Some w \<Rightarrow> matches_of (compare_json v w))) g),
          0 + sum_list (map (\<lambda>(k, v). 1 + (case map_of p k of None \<Rightarrow> 0
                                         | Some w \<Rightarrow> total_of (compare_json v w))) g))"
  proof (rule foldl_acc_sum)
    fix kv and m t :: nat
    assume kv: "kv \<in> set g"
    obtain k v where [simp]: "kv = (k, v)" by (cases kv)
    from kv assms have gv: "getitem g k = Inr v"
      by (simp add: getitem_def)
    show "(case Inr (m, t) of
                 Inl e \<Rightarrow> Inl e
               | Inr (m, t) \<Rightarrow>
                   (if has_key p (fst kv) then
                      (case getitem g (fst kv) of
                         Inl e \<Rightarrow> Inl e
                       | Inr gv \<Rightarrow>
                           (case getitem p (fst kv) of
                              Inl e \<Rightarrow> Inl e
                            | Inr pv \<Rightarrow>
                                (case compare_json gv pv of
                                   Inl e \<Rightarrow> Inl e
                                 | Inr (sub_m, sub_t) \<Rightarrow> Inr (m + sub_m, t + 1 + sub_t))))
                    else Inr (m, t + 1)))
        = Inr (m + (case kv of (k, v) \<Rightarrow> (case map_of p k of None \<Rightarrow> 0
                                     | Some w \<Rightarrow> matches_of (compare_json v w))),
               t + (case kv of (k, v) \<Rightarrow> 1 + (case map_of p k of None \<Rightarrow> 0
                                         | Some w \<Rightarrow> total_of (compare_json v w))))"
    proof (cases "map_of p k")
      case None
      then show ?thesis by (simp add: has_key_def)
    next
      case (Some w)
      then have "has_key p k" and "getitem p k = Inr w"
        by (simp_all add: has_key_def getitem_def)
      moreover from compare_json_le [of v w] obtain sm st where "compare_json v w = Inr (sm, st)"
        by blast
      ultimately show ?thesis
        using gv Some by (simp add: matches_of_def total_of_def)
    qed
  qed
  then show ?thesis
    by (simp add: foldl_map)
qed

lemma compare_json_list_sum:
  "compare_json (JList g) (JList p) =
     Inr (sum_list (map (\<lambda>(x, y). matches_of (compare_json x y)) (zip g p)),
          sum_list (map (\<lambda>(x, y). total_of (compare_json x y)) (zip g p))
            + nat \<bar>int (length g) - int (length p)\<bar>)"
proof -
  have "foldl (\<lambda>acc (x, y).
                    (case acc of
                       Inl e \<Rightarrow> Inl e
                     | Inr (m, t) \<Rightarrow>
                         (case compare_json x y of
                            Inl e \<Rightarrow> Inl e
                          | Inr (sub_m, sub_t) \<Rightarrow> Inr (m + sub_m, t + sub_t))))
                 (Inr (0, 0)) (zip g p)
      = Inr (0 + sum_list (map (\<lambda>(x, y). matches_of (compare_json x y)) (zip g p)),
             0 + sum_list (map (\<lambda>(x, y). total_of (compare_json x y)) (zip g p)))"
  proof (rule foldl_acc_sum)
    fix z :: "json \<times> json" and m t :: nat
    obtain x y where [simp]: "z = (x, y)" by (cases z)
    from compare_json_le [of x y] obtain sm st where "compare_json x y = Inr (sm, st)"
      by blast
    then show "(case z of (x, y) \<Rightarrow>
                    (case Inr (m, t) of
                       Inl e \<Rightarrow> Inl e
                     | Inr (m, t) \<Rightarrow>
                         (case compare_json x y of
                            Inl e \<Rightarrow> Inl e
                          | Inr (sub_m, sub_t) \<Rightarrow> Inr (m + sub_m, t + sub_t))))
        = Inr (m + (case z of (x, y) \<Rightarrow> matches_of (compare_json x y)),
               t + (case z of (x, y) \<Rightarrow> total_of (compare_json x y)))"
      by (simp add: matches_of_def total_of_def)
  qed
  then show ?thesis by simp
qed

lemma sum_list_zip_nth:
  "sum_list (map (\<lambda>(x, y). f x y) (zip g p)) = (\<Sum>i<min (length g) (length p). f (g ! i) (p ! i))"
proof -
  have "sum_list (map (\<lambda>(x, y). f x y) (zip g p))
      = (\<Sum>i = 0..<length (zip g p). map (\<lambda>(x, y). f x y) (zip g p) ! i)"
    by (simp add: sum_list_sum_nth)
  also have "\<dots> = (\<Sum>i = 0..<min (length g) (length p). f (g ! i) (p ! i))"
    by (rule sum.cong) simp_all
  finally show ?thesis
    by (simp add: atLeast0LessThan)
qed

subsection \<open>Rounding to a double\<close>

lemma rhe_of_int: "round_half_even (of_int n) = n"
  by (simp add: round_half_even_def)

lemma rhe_lower: "\<lfloor>q\<rfloor> \<le> round_half_even q"
  by (simp add: round_half_even_def Let_def)

lemma rhe_upper: "round_half_even q \<le> \<lfloor>q\<rfloor> + 1"
  by (simp add: round_half_even_def Let_def)

lemma rhe_mono:
  assumes "x \<le> y"
  shows "round_half_even x \<le> round_half_even y"
proof (cases "\<lfloor>x\<rfloor> = \<lfloor>y\<rfloor>")
  case True
  with assms show ?thesis
    by (auto simp: round_half_even_def Let_def)
next
  case False
  with assms have "\<lfloor>x\<rfloor> + 1 \<le> \<lfloor>y\<rfloor>"
    using floor_mono [of x y] by linarith
  with rhe_upper [of x] rhe_lower [of y] show ?thesis by linarith
qed

lemma bitlen_powi:
  assumes "0 < x"
  shows "2 powi (bitlen x - 1) \<le> (of_int x :: rat) \<and> (of_int x :: rat) < 2 powi (bitlen x)"
proof -
  from assms have ge: "1 \<le> bitlen x"
    by (auto simp: bitlen_alt_def)
  from bitlen_bounds [OF assms]
  have "(of_int (2 ^ nat (bitlen x - 1)) :: rat) \<le> of_int x"
    and "(of_int x :: rat) < of_int (2 ^ nat (bitlen x))"
    by (simp_all only: of_int_le_iff of_int_less_iff)
  with ge show ?thesis
    by (simp add: power_int_nonneg_exp)
qed

lemma float_exponent_bounds:
  assumes "0 < q"
  shows "2 powi (float_exponent q) \<le> q \<and> q < 2 powi (float_exponent q + 1)"
proof -
  obtain a b where ab: "quotient_of q = (a, b)" by (cases "quotient_of q")
  then have b: "0 < b" and q: "q = of_int a / of_int b"
    by (auto dest: quotient_of_denom_pos quotient_of_div)
  with assms have a: "0 < a"
    by (simp add: zero_less_divide_iff)
  define k where "k = bitlen a - bitlen b"
  have fe: "float_exponent q = (if 2 powi k \<le> q then k else k - 1)"
    using assms ab by (simp add: float_exponent_def k_def)
  have up: "q < 2 powi (k + 1)"
  proof -
    have "of_int a < (2::rat) powi (bitlen a)" and "(2::rat) powi (bitlen b - 1) \<le> of_int b"
      using bitlen_powi [OF a] bitlen_powi [OF b] by simp_all
    then have "of_int a * (2::rat) powi (bitlen b - 1) < 2 powi (bitlen a) * of_int b"
      using a b by (intro mult_less_le_imp_less) simp_all
    then have "q < 2 powi (bitlen a) / 2 powi (bitlen b - 1)"
      using b by (simp add: q field_simps)
    also have "\<dots> = 2 powi (k + 1)"
      by (simp add: k_def flip: power_int_diff) (simp add: algebra_simps)
    finally show ?thesis .
  qed
  have lo: "2 powi (k - 1) \<le> q"
  proof -
    have "(2::rat) powi (bitlen a - 1) \<le> of_int a" and "of_int b < (2::rat) powi (bitlen b)"
      using bitlen_powi [OF a] bitlen_powi [OF b] by simp_all
    then have "(2::rat) powi (bitlen a - 1) * of_int b \<le> of_int a * 2 powi (bitlen b)"
      using a b by (intro mult_mono) simp_all
    then have "2 powi (bitlen a - 1) / 2 powi (bitlen b) \<le> q"
      using b by (simp add: q field_simps)
    moreover have "(2::rat) powi (bitlen a - 1) / 2 powi (bitlen b) = 2 powi (k - 1)"
      by (simp add: k_def flip: power_int_diff) (simp add: algebra_simps)
    ultimately show ?thesis by simp
  qed
  show ?thesis
    using up lo by (auto simp: fe not_le)
qed

lemma to_float_pos_bounds:
  assumes "0 < q"
  shows "2 powi (float_exponent q) \<le> to_float q \<and> to_float q \<le> 2 powi (float_exponent q + 1)"
proof -
  define e where "e = float_exponent q"
  define u :: rat where "u = 2 powi (e - 52)"
  have u: "0 < u" by (simp add: u_def)
  have tf: "to_float q = of_int (round_half_even (q / u)) * u"
    using assms by (simp add: to_float_def e_def u_def Let_def)
  have lo_u: "2 powi e = 2 ^ 52 * u" and hi_u: "2 powi (e + 1) = 2 ^ 53 * u"
    by (simp_all add: u_def power_int_diff power_int_add)
  from float_exponent_bounds [OF assms]
  have "2 ^ 52 * u \<le> q" and "q \<le> 2 ^ 53 * u"
    by (simp_all add: e_def [symmetric] lo_u hi_u)
  with u have "of_int (2 ^ 52) \<le> q / u" and "q / u \<le> of_int (2 ^ 53)"
    by (simp_all add: field_simps)
  then have "round_half_even (of_int (2 ^ 52)) \<le> round_half_even (q / u)"
    and "round_half_even (q / u) \<le> round_half_even (of_int (2 ^ 53))"
    by (auto intro: rhe_mono)
  then have "2 ^ 52 \<le> round_half_even (q / u)" and "round_half_even (q / u) \<le> 2 ^ 53"
    by (simp_all only: rhe_of_int)
  then have "(of_int (2 ^ 52) :: rat) \<le> of_int (round_half_even (q / u))"
    and "(of_int (round_half_even (q / u)) :: rat) \<le> of_int (2 ^ 53)"
    by (simp_all only: of_int_le_iff)
  with u have "2 ^ 52 * u \<le> to_float q" and "to_float q \<le> 2 ^ 53 * u"
    by (simp_all add: tf)
  then show ?thesis
    by (simp add: e_def [symmetric] lo_u hi_u)
qed

lemma to_float_mono:
  assumes "0 \<le> x" and "x \<le> y"
  shows "to_float x \<le> to_float y"
proof (cases "x = 0")
  case True
  show ?thesis
  proof (cases "y = 0")
    case True
    with \<open>x = 0\<close> show ?thesis by simp
  next
    case False
    with assms have "0 < y" by simp
    from to_float_pos_bounds [OF this] have "0 < to_float y"
      by (meson less_le_trans zero_less_numeral zero_less_power_int)
    with \<open>x = 0\<close> show ?thesis by (simp add: to_float_def)
  qed
next
  case False
  with assms have x: "0 < x" and y: "0 < y" by simp_all
  define e e' where "e = float_exponent x" and "e' = float_exponent y"
  have "(2::rat) powi e < 2 powi (e' + 1)"
    using float_exponent_bounds [OF x] float_exponent_bounds [OF y] assms
    by (simp add: e_def e'_def)
  then have le: "e \<le> e'"
    using power_int_increasing [of "e' + 1" e "2::rat"] by (cases "e \<le> e'") auto
  show ?thesis
  proof (cases "e = e'")
    case True
    define u :: rat where "u = 2 powi (e - 52)"
    have u: "0 < u" by (simp add: u_def)
    have "x / u \<le> y / u"
      using assms u by (simp add: divide_right_mono)
    then have "round_half_even (x / u) \<le> round_half_even (y / u)"
      by (rule rhe_mono)
    then have "(of_int (round_half_even (x / u)) :: rat) * u \<le> of_int (round_half_even (y / u)) * u"
      using u by (simp add: mult_right_mono)
    then show ?thesis
      using x y True by (simp add: to_float_def e_def e'_def u_def Let_def)
  next
    case False
    with le have "e + 1 \<le> e'" by simp
    then have "(2::rat) powi (e + 1) \<le> 2 powi e'"
      by (intro power_int_increasing) simp_all
    with to_float_pos_bounds [OF x] to_float_pos_bounds [OF y] show ?thesis
      by (simp add: e_def e'_def)
  qed
qed

lemma to_float_0: "to_float 0 = 0"
  by (simp add: to_float_def)

lemma to_float_1: "to_float 1 = 1"
  by code_simp

lemma to_float_100: "to_float 100 = 100"
  by code_simp

lemma py_round2_range:
  assumes "0 \<le> x" and "x \<le> 100"
  shows "0 \<le> py_round2 x \<and> py_round2 x \<le> 100"
proof -
  from assms have "of_int 0 \<le> x * 100" and "x * 100 \<le> of_int 10000" by simp_all
  then have "round_half_even (of_int 0) \<le> round_half_even (x * 100)"
    and "round_half_even (x * 100) \<le> round_half_even (of_int 10000)"
    by (auto intro: rhe_mono)
  then have "0 \<le> round_half_even (x * 100)" and "round_half_even (x * 100) \<le> 10000"
    by (simp_all only: rhe_of_int)
  then have "(0::rat) \<le> of_int (round_half_even (x * 100)) / 100"
    and "(of_int (round_half_even (x * 100)) :: rat) / 100 \<le> 100"
    by simp_all
  then have "to_float 0 \<le> py_round2 x" and "py_round2 x \<le> to_float 100"
    unfolding py_round2_def by (auto intro: to_float_mono)
  then show ?thesis
    by (simp add: to_float_0 to_float_100)
qed

lemma percent_range:
  assumes "m \<le> t" and "0 < t"
  shows "0 \<le> py_round2 (float_mul (to_float (of_nat m / of_nat t)) 100)
       \<and> py_round2 (float_mul (to_float (of_nat m / of_nat t)) 100) \<le> 100"
proof -
  define q :: rat where "q = of_nat m / of_nat t"
  from assms have "0 \<le> q" and "q \<le> 1"
    by (simp_all add: q_def)
  then have "to_float 0 \<le> to_float q" and "to_float q \<le> to_float 1"
    by (auto intro: to_float_mono)
  then have "0 \<le> to_float q * 100" and "to_float q * 100 \<le> 100"
    by (simp_all add: to_float_0 to_float_1)
  then have "to_float 0 \<le> float_mul (to_float q) 100" and "float_mul (to_float q) 100 \<le> to_float 100"
    unfolding float_mul_def by (auto intro: to_float_mono)
  then show ?thesis
    unfolding q_def [symmetric] by (intro py_round2_range) (simp_all add: to_float_0 to_float_100)
qed

lemma score_range:
  "\<exists>s. score_accuracy e a = Inr s \<and> 0 \<le> match_percent s \<and> match_percent s \<le> 100"
proof (cases "py_eq e a")
  case True
  then show ?thesis
    by (simp add: score_accuracy_def score_accuracy_with_def)
next
  case False
  from compare_json_le [of e a] obtain m t where c: "compare_json e a = Inr (m, t)" and le: "m \<le> t"
    by blast
  show ?thesis
  proof (cases "0 < t")
    case True
    with percent_range [OF le True] False c show ?thesis
      by (simp add: score_accuracy_def score_accuracy_with_def truediv_def)
  next
    case f: False
    with False c show ?thesis
      by (simp add: score_accuracy_def score_accuracy_with_def)
  qed
qed

subsection \<open>Equality of trees\<close>

lemma py_eq_refl:
  assumes "wf_json t"
  shows "py_eq t t"
  using assms
proof (induction t)
  case (JList xs)
  then show ?case
    by (auto simp: list_all_iff zip_same)
next
  case (JDict d)
  have "case map_of d k of None \<Rightarrow> False | Some w \<Rightarrow> py_eq v w" if "(k, v) \<in> set d" for k v
  proof -
    from that JDict.prems have "map_of d k = Some v" by simp
    moreover from that JDict.prems have "wf_json v" by (auto simp: list_all_iff)
    with that JDict.IH have "py_eq v v" by fastforce
    ultimately show ?thesis by simp
  qed
  then show ?case
    by (auto simp: list_all_iff)
qed simp_all

lemma keys_eq_iff_length:
  assumes "distinct (map fst g)" and "distinct (map fst p)"
    and "set (map fst g) \<subseteq> set (map fst p)"
  shows "set (map fst g) = set (map fst p) \<longleftrightarrow> length g = length p"
proof
  assume "set (map fst g) = set (map fst p)"
  then have "card (set (map fst g)) = card (set (map fst p))" by simp
  with distinct_card [OF assms(1)] distinct_card [OF assms(2)] show "length g = length p"
    by simp
next
  assume "length g = length p"
  with distinct_card [OF assms(1)] distinct_card [OF assms(2)]
  have "card (set (map fst g)) = card (set (map fst p))"
    by simp
  with assms(3) show "set (map fst g) = set (map fst p)"
    by (intro card_subset_eq) simp_all
qed

lemma all_keys_subset:
  assumes "list_all (\<lambda>(k, v). (case map_of p k of None \<Rightarrow> False | Some w \<Rightarrow> Q v w)) g"
  shows "set (map fst g) \<subseteq> set (map fst p)"
proof
  fix k assume "k \<in> set (map fst g)"
  then obtain v where "(k, v) \<in> set g" by auto
  with assms have "map_of p k \<noteq> None"
    by (auto simp: list_all_iff split: option.splits)
  then show "k \<in> set (map fst p)"
    by (simp add: map_of_eq_None_iff)
qed

lemma spec_deep_eq_leaf:
  assumes "\<not> (is_list e \<and> is_list a)" and "\<not> (is_dict e \<and> is_dict a)" and "spec_deep_eq e a"
  shows "py_eq e a"
  using assms by (cases e; cases a) simp_all

lemma spec_deep_eq_py_eq:
  assumes "wf_json e" and "wf_json a" and "spec_deep_eq e a"
  shows "py_eq e a"
  using assms
proof (induction e a rule: py_eq.induct)
  case (3 xs ys)
  have "py_eq x y" if xy: "(x, y) \<in> set (zip xs ys)" for x y
  proof -
    from xy have "x \<in> set xs" and "y \<in> set ys"
      by (auto dest: set_zip_leftD set_zip_rightD)
    with "3.prems" have "wf_json x" and "wf_json y" and "spec_deep_eq x y"
      using xy by (auto simp: list_all_iff)
    then show ?thesis
      using "3.IH" [OF xy refl] by simp
  qed
  with "3.prems" show ?case
    by (auto simp: list_all_iff)
next
  case (4 g p)
  from "4.prems" have dg: "distinct (map fst g)" and dp: "distinct (map fst p)"
    and keys: "set (map fst g) = set (map fst p)"
    and all: "list_all (\<lambda>(k, v). (case map_of p k of None \<Rightarrow> False | Some w \<Rightarrow> spec_deep_eq v w)) g"
    by simp_all
  from keys dg dp have "length g = length p"
    using keys_eq_iff_length [of g p] by simp
  moreover have "case map_of p k of None \<Rightarrow> False | Some w \<Rightarrow> py_eq v w" if kv: "(k, v) \<in> set g" for k v
  proof -
    from all kv obtain w where w: "map_of p k = Some w" and eq: "spec_deep_eq v w"
      by (auto simp: list_all_iff split: option.splits)
    from kv "4.prems" have "wf_json v" by (auto simp: list_all_iff)
    moreover from w have "(k, w) \<in> set p" by (rule map_of_SomeD)
    with "4.prems" have "wf_json w" by (auto simp: list_all_iff)
    ultimately have "py_eq v w"
      using "4.IH" [OF kv refl w] eq by simp
    with w show ?thesis by simp
  qed
  ultimately show ?case
    by (auto simp: list_all_iff)
qed (rule spec_deep_eq_leaf; simp)+

lemma py_eq_spec_leaf:
  assumes "\<not> (is_list e \<and> is_list a)" and "\<not> (is_dict e \<and> is_dict a)"
  shows "py_eq e a = spec_deep_eq (bool_as_int e) (bool_as_int a)"
  using assms by (cases e; cases a) simp_all

lemma map_of_bool_as_int:
  "map_of (map (\<lambda>(k, v). (k, bool_as_int v)) d) k = map_option bool_as_int (map_of d k)"
  by (induction d) auto

lemma py_eq_spec_deep_eq:
  assumes "wf_json e" and "wf_json a"
  shows "py_eq e a = spec_deep_eq (bool_as_int e) (bool_as_int a)"
  using assms
proof (induction e a rule: py_eq.induct)
  case (3 xs ys)
  have "py_eq x y = spec_deep_eq (bool_as_int x) (bool_as_int y)"
    if xy: "(x, y) \<in> set (zip xs ys)" for x y
  proof -
    from xy have "x \<in> set xs" and "y \<in> set ys"
      by (auto dest: set_zip_leftD set_zip_rightD)
    with "3.prems" have "wf_json x" and "wf_json y"
      by (auto simp: list_all_iff)
    then show ?thesis
      using "3.IH" [OF xy refl] by simp
  qed
  then show ?case
    by (auto simp: list_all_iff zip_map_map)
next
  case (4 g p)
  let ?b = "map (\<lambda>(k, v). (k, bool_as_int v))"
  from "4.prems" have dg: "distinct (map fst g)" and dp: "distinct (map fst p)"
    by simp_all
  have keys: "map fst (?b d) = map fst d" for d :: "(string \<times> json) list"
    by (induction d) auto
  have step: "(case map_of p k of None \<Rightarrow> False | Some w \<Rightarrow> py_eq v w)
      = (case map_of (?b p) k of None \<Rightarrow> False | Some w \<Rightarrow> spec_deep_eq (bool_as_int v) w)"
    if kv: "(k, v) \<in> set g" for k v
  proof (cases "map_of p k")
    case None
    then show ?thesis by (simp add: map_of_bool_as_int)
  next
    case (Some w)
    from kv "4.prems" have "wf_json v" by (auto simp: list_all_iff)
    moreover from Some have "(k, w) \<in> set p" by (rule map_of_SomeD)
    with "4.prems" have "wf_json w" by (auto simp: list_all_iff)
    ultimately have "py_eq v w = spec_deep_eq (bool_as_int v) (bool_as_int w)"
      using "4.IH" [OF kv refl Some] by simp
    with Some show ?thesis by (simp add: map_of_bool_as_int)
  qed
  have all: "list_all (\<lambda>(k, v). (case map_of p k of None \<Rightarrow> False | Some w \<Rightarrow> py_eq v w)) g
      = list_all (\<lambda>(k, v). (case map_of (?b p) k of None \<Rightarrow> False | Some w \<Rightarrow> spec_deep_eq v w)) (?b g)"
    using step by (auto simp: list_all_iff)
  show ?case
  proof (cases "list_all (\<lambda>(k, v). (case map_of p k of None \<Rightarrow> False | Some w \<Rightarrow> py_eq v w)) g")
    case True
    then have "set (map fst g) \<subseteq> set (map fst p)"
      by (rule all_keys_subset)
    with dg dp have "(set (map fst g) = set (map fst p)) = (length g = length p)"
      by (rule keys_eq_iff_length)
    moreover have "spec_deep_eq (bool_as_int (JDict g)) (bool_as_int (JDict p))
        = (set (map fst g) = set (map fst p) \<and>
           list_all (\<lambda>(k, v). (case map_of (?b p) k of None \<Rightarrow> False
                                 | Some w \<Rightarrow> spec_deep_eq v w)) (?b g))"
      by (simp only: bool_as_int.simps spec_deep_eq.simps keys)
    ultimately show ?thesis
      using True all by simp
  next
    case False
    moreover have "spec_deep_eq (bool_as_int (JDict g)) (bool_as_int (JDict p))
        = (set (map fst g) = set (map fst p) \<and>
           list_all (\<lambda>(k, v). (case map_of (?b p) k of None \<Rightarrow> False
                                 | Some w \<Rightarrow> spec_deep_eq v w)) (?b g))"
      by (simp only: bool_as_int.simps spec_deep_eq.simps keys)
    ultimately show ?thesis
      using all by simp
  qed
qed (rule py_eq_spec_leaf; simp)+

subsection \<open>The recursion limit\<close>












lemma depth_nest: "depth (nest k t) = k + depth t"
  by (induction k) simp_all






subsection \<open>The batch loop\<close>

lemma batch_item_returns:
  assumes "parse_with_node q = Inr gold_ast"
  shows "\<exists>r. batch_item scorer str_of parse_with_node call_llm q = Inr r"
  using assms by (simp add: batch_item_def)

lemma batch_loop:
  assumes "\<forall>q \<in> set qs. \<exists>g. parse_with_node q = Inr g"
  shows "\<exists>rs. foldl (\<lambda>acc q.
              (case acc of
                 Inl e \<Rightarrow> Inl e
               | Inr done \<Rightarrow>
                   (case batch_item scorer str_of parse_with_node call_llm q of
                      Inl e \<Rightarrow> Inl e
                    | Inr r \<Rightarrow> Inr (done @ [r]))))
           (Inr acc) qs = Inr (acc @ rs)
       \<and> list_all2 (\<lambda>q r. batch_item scorer str_of parse_with_node call_llm q = Inr r) qs rs"
  using assms
proof (induction qs arbitrary: acc)
  case Nil
  show ?case by simp
next
  case (Cons q qs)
  from Cons.prems obtain g where "parse_with_node q = Inr g" by auto
  then obtain r where r: "batch_item scorer str_of parse_with_node call_llm q = Inr r"
    using batch_item_returns by blast
  from Cons.prems have "\<forall>q \<in> set qs. \<exists>g. parse_with_node q = Inr g" by simp
  from Cons.IH [OF this, of "acc @ [r]"] obtain rs where
    "foldl (\<lambda>acc q.
              (case acc of
                 Inl e \<Rightarrow> Inl e
               | Inr done \<Rightarrow>
                   (case batch_item scorer str_of parse_with_node call_llm q of
                      Inl e \<Rightarrow> Inl e
                    | Inr r \<Rightarrow> Inr (done @ [r]))))
           (Inr (acc @ [r])) qs = Inr ((acc @ [r]) @ rs)"
    and "list_all2 (\<lambda>q r. batch_item scorer str_of parse_with_node call_llm q = Inr r) qs rs"
    by blast
  with r show ?case
    by (intro exI [of _ "r # rs"]) simp
qed

section \<open>Claims about \<^verbatim>\<open>compare_json\<close>\<close>

text \<open>
  C1: for two dicts (\<^verbatim>\<open>gold\<close>, as every dict, with no key twice), \<^verbatim>\<open>compare_json\<close>
  adds 1 to \<^verbatim>\<open>total\<close> for every key of
  \<^verbatim>\<open>gold\<close> and, exactly when the key is also in \<^verbatim>\<open>pred\<close>, the pair that the recursive call
  on the two values returns; the sums run over the items of \<^verbatim>\<open>gold\<close> alone. The recursive
  calls return pairs, so \<open>matches_of\<close> and \<open>total_of\<close> are their counters. The keys of
  \<^verbatim>\<open>pred\<close> that \<^verbatim>\<open>gold\<close> does not have contribute nothing: a dict \<open>p'\<close> that agrees with
  \<open>p\<close> on the keys of \<^verbatim>\<open>gold\<close> gives the same result.
\<close>

theorem compare_json_dict_keys:
  assumes "distinct (map fst g)"
  shows "compare_json (JDict g) (JDict p) =
           Inr (sum_list (map (\<lambda>(k, v). (case map_of p k of None \<Rightarrow> 0
                                           | Some w \<Rightarrow> matches_of (compare_json v w))) g),
                sum_list (map (\<lambda>(k, v). 1 + (case map_of p k of None \<Rightarrow> 0
                                               | Some w \<Rightarrow> total_of (compare_json v w))) g))
       \<and> (\<forall>v w. compare_json v w = Inr (matches_of (compare_json v w), total_of (compare_json v w)))
       \<and> (\<forall>p'. (\<forall>k \<in> set (map fst g). map_of p' k = map_of p k) \<longrightarrow>
                compare_json (JDict g) (JDict p') = compare_json (JDict g) (JDict p))"
proof (intro conjI allI impI)
  show "compare_json (JDict g) (JDict p) =
           Inr (sum_list (map (\<lambda>(k, v). (case map_of p k of None \<Rightarrow> 0
                                           | Some w \<Rightarrow> matches_of (compare_json v w))) g),
                sum_list (map (\<lambda>(k, v). 1 + (case map_of p k of None \<Rightarrow> 0
                                               | Some w \<Rightarrow> total_of (compare_json v w))) g))"
    using assms by (rule compare_json_dict_sum)
next
  fix v w
  show "compare_json v w = Inr (matches_of (compare_json v w), total_of (compare_json v w))"
    by (rule compare_json_returns)
next
  fix p'
  assume agree: "\<forall>k \<in> set (map fst g). map_of p' k = map_of p k"
  have "map (\<lambda>(k, v). (case map_of p' k of None \<Rightarrow> 0
                         | Some w \<Rightarrow> matches_of (compare_json v w))) g
      = map (\<lambda>(k, v). (case map_of p k of None \<Rightarrow> 0
                         | Some w \<Rightarrow> matches_of (compare_json v w))) g"
    and "map (\<lambda>(k, v). 1 + (case map_of p' k of None \<Rightarrow> 0
                         | Some w \<Rightarrow> total_of (compare_json v w))) g
      = map (\<lambda>(k, v). 1 + (case map_of p k of None \<Rightarrow> 0
                         | Some w \<Rightarrow> total_of (compare_json v w))) g"
    using agree by (auto intro!: map_cong)
  then show "compare_json (JDict g) (JDict p') = compare_json (JDict g) (JDict p)"
    by (simp only: compare_json_dict_sum [OF assms])
qed

theorem compare_json_dict_keys_witness:
  "distinct (map fst [(''a'', JInt 1), (''b'', JInt 2)])
   \<and> compare_json (JDict [(''a'', JInt 1), (''b'', JInt 2)])
        (JDict [(''c'', JList []), (''a'', JInt 1)]) = Inr (1, 3)
   \<and> compare_json (JDict [(''a'', JInt 1), (''b'', JInt 2)]) (JDict [(''a'', JInt 1)])
     = compare_json (JDict [(''a'', JInt 1), (''b'', JInt 2)])
         (JDict [(''c'', JList []), (''a'', JInt 1)])"
proof -
  have d: "distinct (map fst [(''a'', JInt 1), (''b'', JInt 2)])"
    by simp
  from compare_json_dict_keys [OF d, of "[(''c'', JList []), (''a'', JInt 1)]"]
  have "compare_json (JDict [(''a'', JInt 1), (''b'', JInt 2)])
          (JDict [(''c'', JList []), (''a'', JInt 1)]) = Inr (1, 3)"
    and "(\<forall>k \<in> set (map fst [(''a'', JInt 1), (''b'', JInt 2)]).
            map_of [(''a'', JInt 1)] k = map_of [(''c'', JList []), (''a'', JInt 1)] k) \<longrightarrow>
         compare_json (JDict [(''a'', JInt 1), (''b'', JInt 2)]) (JDict [(''a'', JInt 1)])
       = compare_json (JDict [(''a'', JInt 1), (''b'', JInt 2)])
           (JDict [(''c'', JList []), (''a'', JInt 1)])"
    by (simp_all add: matches_of_def total_of_def)
  with d show ?thesis by simp
qed

text \<open>
  C2, as the specification states it: \<^verbatim>\<open>score_accuracy({"a": 1, "b": 2}, {"a": 1})\<close>
  has \<^verbatim>\<open>matches\<close> 1, \<^verbatim>\<open>total\<close> 2 and \<^verbatim>\<open>match_percent\<close> 50.0. The code returns another
  record, and \<^verbatim>\<open>compare_json\<close> another pair.
\<close>

theorem score_mapping_example_counterexample:
  "score_accuracy (JDict [(''a'', JInt 1), (''b'', JInt 2)]) (JDict [(''a'', JInt 1)])
     \<noteq> Inr \<lparr>exact_match = 0, match_percent = 50, matches = Some 1, total = Some 2, error = None\<rparr>
   \<and> compare_json (JDict [(''a'', JInt 1), (''b'', JInt 2)]) (JDict [(''a'', JInt 1)]) \<noteq> Inr (1, 2)"
  by code_simp

text \<open>
  C2, amended: the key \<^verbatim>\<open>a\<close> counts once for its presence and once for the comparison of
  its values, the key \<^verbatim>\<open>b\<close> once for its presence, so \<^verbatim>\<open>matches\<close> is 1, \<^verbatim>\<open>total\<close> is 3 and
  \<^verbatim>\<open>match_percent\<close> is 33.33 (the double nearest to it).
\<close>

theorem score_mapping_example:
  "score_accuracy (JDict [(''a'', JInt 1), (''b'', JInt 2)]) (JDict [(''a'', JInt 1)])
     = Inr \<lparr>exact_match = 0, match_percent = to_float (3333 / 100), matches = Some 1,
            total = Some 3, error = None\<rparr>
   \<and> compare_json (JDict [(''a'', JInt 1), (''b'', JInt 2)]) (JDict [(''a'', JInt 1)]) = Inr (1, 3)
   \<and> \<bar>to_float (3333 / 100) - 3333 / 100\<bar> < 1 / 10 ^ 13"
  by code_simp

text \<open>
  C3: for two lists, \<^verbatim>\<open>compare_json\<close> adds up the pairs that the recursive calls return
  on the elements at the indices below the smaller length, and then adds the difference
  of the lengths to \<^verbatim>\<open>total\<close> alone. \<^verbatim>\<open>compare_json([1, 2, 3], [1, 2])\<close> is \<open>(2, 3)\<close>, and
  \<^verbatim>\<open>score_accuracy\<close> makes of it the \<^verbatim>\<open>match_percent\<close> 66.67 (the double nearest to it).
\<close>

theorem compare_json_lists:
  "compare_json (JList g) (JList p) =
     Inr (\<Sum>i<min (length g) (length p). matches_of (compare_json (g ! i) (p ! i)),
          (\<Sum>i<min (length g) (length p). total_of (compare_json (g ! i) (p ! i)))
            + nat \<bar>int (length g) - int (length p)\<bar>)
   \<and> (\<forall>v w. compare_json v w = Inr (matches_of (compare_json v w), total_of (compare_json v w)))
   \<and> compare_json (JList [JInt 1, JInt 2, JInt 3]) (JList [JInt 1, JInt 2]) = Inr (2, 3)
   \<and> score_accuracy (JList [JInt 1, JInt 2, JInt 3]) (JList [JInt 1, JInt 2])
       = Inr \<lparr>exact_match = 0, match_percent = to_float (6667 / 100), matches = Some 2,
              total = Some 3, error = None\<rparr>
   \<and> \<bar>to_float (6667 / 100) - 6667 / 100\<bar> < 1 / 10 ^ 13"
proof (intro conjI allI)
  show "compare_json (JList g) (JList p) =
     Inr (\<Sum>i<min (length g) (length p). matches_of (compare_json (g ! i) (p ! i)),
          (\<Sum>i<min (length g) (length p). total_of (compare_json (g ! i) (p ! i)))
            + nat \<bar>int (length g) - int (length p)\<bar>)"
    by (simp only: compare_json_list_sum sum_list_zip_nth)
next
  fix v w
  show "compare_json v w = Inr (matches_of (compare_json v w), total_of (compare_json v w))"
    by (rule compare_json_returns)
next
  show "compare_json (JList [JInt 1, JInt 2, JInt 3]) (JList [JInt 1, JInt 2]) = Inr (2, 3)"
    by simp
next
  show "score_accuracy (JList [JInt 1, JInt 2, JInt 3]) (JList [JInt 1, JInt 2])
       = Inr \<lparr>exact_match = 0, match_percent = to_float (6667 / 100), matches = Some 2,
              total = Some 3, error = None\<rparr>"
    by code_simp
next
  show "\<bar>to_float (6667 / 100) - 6667 / 100\<bar> < 1 / 10 ^ 13"
    by code_simp
qed

text \<open>
  C4: when \<^verbatim>\<open>gold\<close> is a dict and \<^verbatim>\<open>pred\<close> is not, \<^verbatim>\<open>compare_json\<close> returns
  \<open>(0, 1)\<close>, however many keys \<^verbatim>\<open>gold\<close> has; for instance
  \<^verbatim>\<open>compare_json({"a": 1}, "not a mapping")\<close> is \<open>(0, 1)\<close>.
\<close>

theorem compare_json_dict_vs_other:
  "(\<not> is_dict a \<longrightarrow> compare_json (JDict g) a = Inr (0, 1))
   \<and> compare_json (JDict [(''a'', JInt 1)]) (JStr ''not a mapping'') = Inr (0, 1)"
  by (cases a) simp_all

theorem compare_json_dict_vs_other_witness:
  "\<not> is_dict (JList [JDict []])
   \<and> compare_json (JDict [(''a'', JInt 1), (''b'', JNull)]) (JList [JDict []]) = Inr (0, 1)"
  using compare_json_dict_vs_other [of "JList [JDict []]" "[(''a'', JInt 1), (''b'', JNull)]"]
  by simp

text \<open>
  C5, as the specification states it: outside the two container branches \<^verbatim>\<open>matches\<close> is
  1 exactly when the two trees are equal under the type-sensitive deep equality of the
  specification. \<^verbatim>\<open>compare_json(True, 1)\<close> reaches the last branch and returns
  \<open>(1, 1)\<close>, since \<^verbatim>\<open>True == 1\<close> in Python, while a Boolean and a Number are not equal
  in the specification.
\<close>

theorem compare_json_else_counterexample:
  "\<not> is_dict (JBool True) \<and> \<not> (is_list (JBool True) \<and> is_list (JInt 1))
   \<and> compare_json (JBool True) (JInt 1) = Inr (1, 1)
   \<and> \<not> spec_deep_eq (JBool True) (JInt 1)"
  by simp

text \<open>
  C5, amended: when \<^verbatim>\<open>gold\<close> is not a dict and the two trees are not both lists,
  \<^verbatim>\<open>compare_json\<close> returns \<^verbatim>\<open>total\<close> 1, with \<^verbatim>\<open>matches\<close> 1 exactly when
  \<^verbatim>\<open>gold == pred\<close> in Python. On trees whose dicts have no key twice that is the
  type-sensitive deep equality of the specification after every Boolean is read as the
  number 1 or 0. A number (or Boolean) and a string never match.
\<close>

theorem compare_json_else:
  assumes "\<not> is_dict e" and "\<not> (is_list e \<and> is_list a)"
  shows "compare_json e a = Inr (if py_eq e a then 1 else 0, 1)
       \<and> (wf_json e \<and> wf_json a \<longrightarrow>
            py_eq e a = spec_deep_eq (bool_as_int e) (bool_as_int a))
       \<and> (num_val e \<noteq> None \<longrightarrow> \<not> py_eq e (JStr s) \<and> \<not> py_eq (JStr s) e)"
proof (intro conjI impI)
  show "compare_json e a = Inr (if py_eq e a then 1 else 0, 1)"
    using assms by (cases e; cases a) simp_all
next
  assume "wf_json e \<and> wf_json a"
  then show "py_eq e a = spec_deep_eq (bool_as_int e) (bool_as_int a)"
    by (simp add: py_eq_spec_deep_eq)
next
  assume "num_val e \<noteq> None"
  then show "\<not> py_eq e (JStr s)" and "\<not> py_eq (JStr s) e"
    by (cases e; simp)+
qed

theorem compare_json_else_witness:
  "\<not> is_dict (JFloat 1) \<and> \<not> (is_list (JFloat 1) \<and> is_list (JBool True))
   \<and> compare_json (JFloat 1) (JBool True) = Inr (1, 1)
   \<and> wf_json (JFloat 1) \<and> wf_json (JBool True)
   \<and> spec_deep_eq (bool_as_int (JFloat 1)) (bool_as_int (JBool True))
   \<and> num_val (JFloat 1) \<noteq> None \<and> \<not> py_eq (JFloat 1) (JStr ''1.0'')"
proof -
  have h: "\<not> is_dict (JFloat 1)" "\<not> (is_list (JFloat 1) \<and> is_list (JBool True))"
    by simp_all
  from compare_json_else [OF h, of "''1.0''"] show ?thesis
    by simp
qed

section \<open>Claims about \<^verbatim>\<open>score_accuracy\<close>\<close>

text \<open>
  C6: \<^verbatim>\<open>score_accuracy(T, T)\<close> is \<^verbatim>\<open>{"exact_match": 1, "match_percent": 100.0}\<close> for every
  tree \<open>T\<close> (whose dicts, as every dict, have no key twice), and so is \<^verbatim>\<open>score_accuracy\<close>
  of two such trees that are deeply equal in the sense of the specification. The record comes from the first branch, which does not
  call the comparator: it is the same for every comparator put in its place.
\<close>

theorem score_accuracy_reflexive:
  "(wf_json T \<longrightarrow>
      score_accuracy T T =
        Inr \<lparr>exact_match = 1, match_percent = 100, matches = None, total = None, error = None\<rparr>)
   \<and> (wf_json e \<and> wf_json a \<and> spec_deep_eq e a \<longrightarrow>
        score_accuracy e a =
          Inr \<lparr>exact_match = 1, match_percent = 100, matches = None, total = None, error = None\<rparr>
        \<and> (\<forall>compare. score_accuracy_with compare e a = score_accuracy e a))"
  by (auto simp: score_accuracy_def score_accuracy_with_def py_eq_refl spec_deep_eq_py_eq)

theorem score_accuracy_reflexive_witness:
  "wf_json (JDict [(''a'', JList [JInt 1, JNull]), (''b'', JStr ''x'')])
   \<and> wf_json (JDict [(''b'', JStr ''x''), (''a'', JList [JFloat 1, JNull])])
   \<and> spec_deep_eq (JDict [(''a'', JList [JInt 1, JNull]), (''b'', JStr ''x'')])
        (JDict [(''b'', JStr ''x''), (''a'', JList [JFloat 1, JNull])])
   \<and> score_accuracy (JDict [(''a'', JList [JInt 1, JNull]), (''b'', JStr ''x'')])
        (JDict [(''a'', JList [JInt 1, JNull]), (''b'', JStr ''x'')])
       = Inr \<lparr>exact_match = 1, match_percent = 100, matches = None, total = None, error = None\<rparr>
   \<and> score_accuracy_with (\<lambda>x y. Inl ZeroDivisionError)
        (JDict [(''a'', JList [JInt 1, JNull]), (''b'', JStr ''x'')])
        (JDict [(''b'', JStr ''x''), (''a'', JList [JFloat 1, JNull])])
       = Inr \<lparr>exact_match = 1, match_percent = 100, matches = None, total = None, error = None\<rparr>"
proof -
  have h: "wf_json (JDict [(''a'', JList [JInt 1, JNull]), (''b'', JStr ''x'')])"
    "wf_json (JDict [(''b'', JStr ''x''), (''a'', JList [JFloat 1, JNull])])"
    "spec_deep_eq (JDict [(''a'', JList [JInt 1, JNull]), (''b'', JStr ''x'')])
        (JDict [(''b'', JStr ''x''), (''a'', JList [JFloat 1, JNull])])"
    by (simp_all add: insert_commute)
  from score_accuracy_reflexive
    [of "JDict [(''a'', JList [JInt 1, JNull]), (''b'', JStr ''x'')]"
        "JDict [(''a'', JList [JInt 1, JNull]), (''b'', JStr ''x'')]"
        "JDict [(''b'', JStr ''x''), (''a'', JList [JFloat 1, JNull])]"]
  show ?thesis using h by simp
qed

text \<open>
  C7: the pair that \<^verbatim>\<open>compare_json\<close> returns has \<open>0 \<le> matches \<le> total\<close>, and the
  \<^verbatim>\<open>match_percent\<close> that \<^verbatim>\<open>score_accuracy\<close> returns lies between 0.0 and 100.0, for every
  pair of trees.
\<close>

theorem compare_json_score_range:
  "(\<exists>m t. compare_json e a = Inr (m, t) \<and> 0 \<le> m \<and> m \<le> t)
   \<and> (\<exists>s. score_accuracy e a = Inr s \<and> 0 \<le> match_percent s \<and> match_percent s \<le> 100)"
  using compare_json_le [of e a] score_range [of e a] by simp




text \<open>
  C10: against an empty \<^verbatim>\<open>gold\<close> dict \<^verbatim>\<open>compare_json\<close> returns \<open>(0, 0)\<close> for every dict
  \<^verbatim>\<open>pred\<close>; when \<^verbatim>\<open>pred\<close> is not empty the two are unequal, and \<^verbatim>\<open>score_accuracy\<close> takes
  the branch for \<^verbatim>\<open>total == 0\<close>: \<^verbatim>\<open>exact_match\<close> 0 and \<^verbatim>\<open>match_percent\<close> 0.0.
\<close>

theorem score_accuracy_empty_gold:
  "compare_json (JDict []) (JDict p) = Inr (0, 0)
   \<and> (p \<noteq> [] \<longrightarrow>
        score_accuracy (JDict []) (JDict p) =
          Inr \<lparr>exact_match = 0, match_percent = 0, matches = Some 0, total = Some 0,
               error = None\<rparr>)"
  by (simp add: score_accuracy_def score_accuracy_with_def)

theorem score_accuracy_empty_gold_witness:
  "[(''a'', JInt 1)] \<noteq> []
   \<and> score_accuracy (JDict []) (JDict [(''a'', JInt 1)]) =
       Inr \<lparr>exact_match = 0, match_percent = 0, matches = Some 0, total = Some 0, error = None\<rparr>"
  using score_accuracy_empty_gold [of "[(''a'', JInt 1)]"] by simp

section \<open>Claims about the batch loop\<close>

text \<open>
  C9, as the specification states it: no failure of a producer is fatal to the batch. The
  reference producer is called before the \<^verbatim>\<open>try\<close>: when it raises for an item, the loop
  ends with that exception and there are no results.
\<close>

theorem batch_fatal_counterexample:
  "batch score_accuracy (\<lambda>e. ''error'')
     (\<lambda>q. if q = ''DROP'' then Inl (Raised ''JSONDecodeError'') else Inr (JDict []))
     (\<lambda>q. Inr (JDict [])) [''SELECT'', ''DROP'', ''UPDATE'']
   = Inl (Raised ''JSONDecodeError'')"
  by (simp add: batch_def batch_item_def)

text \<open>
  C9, amended: when the candidate producer raises for an item, the score of the item is the
  record with \<^verbatim>\<open>str\<close> of the exception, \<^verbatim>\<open>exact_match\<close> 0 and \<^verbatim>\<open>match_percent\<close> 0.0,
  whatever the scoring routine is (it is not called); and a batch whose reference producer
  returns a tree for every item goes through all items, whatever the candidate producer
  and the scoring routine raise: its result has one record for every item, each the one
  its own item gives.
\<close>

theorem batch_isolates_candidate_failure:
  "(parse_with_node q = Inr gold_ast \<and> call_llm q = Inl e \<longrightarrow>
      batch_item scorer str_of parse_with_node call_llm q =
        Inr \<lparr>sql = q, score = \<lparr>exact_match = 0, match_percent = 0, matches = None, total = None,
                               error = Some (str_of e)\<rparr>\<rparr>)
   \<and> ((\<forall>q \<in> set test_sqls. \<exists>g. parse_with_node q = Inr g) \<longrightarrow>
        (\<exists>rs. batch scorer str_of parse_with_node call_llm test_sqls = Inr rs
           \<and> length rs = length test_sqls
           \<and> list_all2 (\<lambda>q r. batch_item scorer str_of parse_with_node call_llm q = Inr r)
                test_sqls rs)
        \<and> (\<exists>rs. results n eq str_of parse_with_node call_llm test_sqls = Inr rs
           \<and> length rs = length test_sqls
           \<and> list_all2 (\<lambda>q r. batch_item (score_accuracy_frames n eq) str_of parse_with_node
                                call_llm q = Inr r)
                test_sqls rs))"
proof (intro conjI impI)
  assume "parse_with_node q = Inr gold_ast \<and> call_llm q = Inl e"
  then show "batch_item scorer str_of parse_with_node call_llm q =
        Inr \<lparr>sql = q, score = \<lparr>exact_match = 0, match_percent = 0, matches = None, total = None,
                               error = Some (str_of e)\<rparr>\<rparr>"
    by (simp add: batch_item_def)
next
  assume p: "\<forall>q \<in> set test_sqls. \<exists>g. parse_with_node q = Inr g"
  from batch_loop [OF p, of scorer str_of call_llm "[]"] obtain rs where
    "batch scorer str_of parse_with_node call_llm test_sqls = Inr rs"
    and all: "list_all2 (\<lambda>q r. batch_item scorer str_of parse_with_node call_llm q = Inr r)
                test_sqls rs"
    by (auto simp: batch_def)
  moreover from all have "length rs = length test_sqls"
    by (simp add: list_all2_lengthD)
  ultimately show "\<exists>rs. batch scorer str_of parse_with_node call_llm test_sqls = Inr rs
           \<and> length rs = length test_sqls
           \<and> list_all2 (\<lambda>q r. batch_item scorer str_of parse_with_node call_llm q = Inr r)
                test_sqls rs"
    by blast
next
  assume p: "\<forall>q \<in> set test_sqls. \<exists>g. parse_with_node q = Inr g"
  from batch_loop [OF p, of "score_accuracy_frames n eq" str_of call_llm "[]"] obtain rs where
    "results n eq str_of parse_with_node call_llm test_sqls = Inr rs"
    and all: "list_all2 (\<lambda>q r. batch_item (score_accuracy_frames n eq) str_of parse_with_node
                                call_llm q = Inr r)
                test_sqls rs"
    by (auto simp: results_def batch_def)
  moreover from all have "length rs = length test_sqls"
    by (simp add: list_all2_lengthD)
  ultimately show "\<exists>rs. results n eq str_of parse_with_node call_llm test_sqls = Inr rs
           \<and> length rs = length test_sqls
           \<and> list_all2 (\<lambda>q r. batch_item (score_accuracy_frames n eq) str_of parse_with_node
                                call_llm q = Inr r)
                test_sqls rs"
    by blast
qed

theorem batch_isolates_candidate_failure_witness:
  "(\<lambda>q. if q = ''DROP'' then Inl (Raised ''Expecting value'')
           else Inr (JDict [(''type'', JStr q)])) ''DROP'' = Inl (Raised ''Expecting value'')
   \<and> results 1000 (\<lambda>x y. Inr (py_eq x y)) (\<lambda>e. case e of Raised msg \<Rightarrow> msg | _ \<Rightarrow> ''other'')
       (\<lambda>q. Inr (JDict [(''type'', JStr q)]))
       (\<lambda>q. if q = ''DROP'' then Inl (Raised ''Expecting value'')
            else Inr (JDict [(''type'', JStr q)]))
       [''DROP'', ''SELECT'']
     = Inr [\<lparr>sql = ''DROP'', score = \<lparr>exact_match = 0, match_percent = 0, matches = None,
                                     total = None, error = Some ''Expecting value''\<rparr>\<rparr>,
            \<lparr>sql = ''SELECT'', score = \<lparr>exact_match = 1, match_percent = 100, matches = None,
                                       total = None, error = None\<rparr>\<rparr>]"
  using batch_isolates_candidate_failure
    [of "\<lambda>q. Inr (JDict [(''type'', JStr q)])" "''DROP''" "JDict [(''type'', JStr ''DROP'')]"
        "\<lambda>q. if q = ''DROP'' then Inl (Raised ''Expecting value'')
             else Inr (JDict [(''type'', JStr q)])"
        "Raised ''Expecting value''" "score_accuracy_frames 1000 (\<lambda>x y. Inr (py_eq x y))"
        "\<lambda>e. case e of Raised msg \<Rightarrow> msg | _ \<Rightarrow> ''other''"
        "[''DROP'', ''SELECT'']" 1000 "\<lambda>x y. Inr (py_eq x y)"]
  by (simp add: results_def batch_def batch_item_def score_accuracy_frames_def)

end
